theory Spec2Isabelle
  imports Main "HOL-Library.Word" "HOL-Library.Sublist"
begin

section \<open>Strings\<close>

text \<open>
  A JavaScript string is a sequence of UTF-16 code units; \<open>length\<close>, \<open>slice\<close>, the
  regular expressions of \<open>content.js\<close> (none has the \<open>u\<close> flag) and \<open>trim\<close> all work on
  code units. A string is therefore a list of 16-bit words.
\<close>

type_synonym code_unit = "16 word"

type_synonym jsstring = "code_unit list"

abbreviation TAB :: code_unit where "TAB \<equiv> 0x09"

abbreviation LF :: code_unit where "LF \<equiv> 0x0A"

abbreviation CR :: code_unit where "CR \<equiv> 0x0D"

abbreviation SP :: code_unit where "SP \<equiv> 0x20"

text \<open>
  \<open>String.prototype.trim\<close> strips the code units that ECMAScript calls WhiteSpace
  (TAB, VT, FF, SP, NBSP, ZWNBSP and the Unicode space separators) or LineTerminator
  (LF, CR, LS, PS). All of them are single code units.
\<close>

definition is_whitespace :: "code_unit \<Rightarrow> bool" where
  "is_whitespace c \<longleftrightarrow>
     c = 0x09 \<or> c = 0x0A \<or> c = 0x0B \<or> c = 0x0C \<or> c = 0x0D \<or> c = 0x20 \<or> c = 0xA0 \<or>
     c = 0x1680 \<or> (0x2000 \<le> c \<and> c \<le> 0x200A) \<or> c = 0x2028 \<or> c = 0x2029 \<or>
     c = 0x202F \<or> c = 0x205F \<or> c = 0x3000 \<or> c = 0xFEFF"

definition trim :: "jsstring \<Rightarrow> jsstring" where
  "trim s = rev (dropWhile is_whitespace (rev (dropWhile is_whitespace s)))"

section \<open>The whitespace normalizer\<close>

text \<open>
  \<open>str.replace(/\r\n/g, "\n")\<close>: the scan goes left to right; where CR LF starts, the
  pair becomes LF and the scan goes on behind it, elsewhere the code unit is kept.
\<close>

fun replace_crlf :: "jsstring \<Rightarrow> jsstring" where
  "replace_crlf (c # d # cs) =
     (if c = CR \<and> d = LF then LF # replace_crlf cs else c # replace_crlf (d # cs))"
| "replace_crlf cs = cs"

text \<open>\<open>.replace(/\t/g, " ")\<close>: every tab becomes one space.\<close>

definition replace_tabs :: "jsstring \<Rightarrow> jsstring" where
  "replace_tabs s = map (\<lambda>c. if c = TAB then SP else c) s"

text \<open>
  \<open>.replace(/ {2,}/g, " ")\<close>: the quantifier is greedy, so a match that starts at two
  spaces takes the whole run of spaces, and one space replaces it.
\<close>

function collapse_spaces :: "jsstring \<Rightarrow> jsstring" where
  "collapse_spaces (c # d # cs) =
     (if c = SP \<and> d = SP then SP # collapse_spaces (dropWhile (\<lambda>x. x = SP) cs)
      else c # collapse_spaces (d # cs))"
| "collapse_spaces [c] = [c]"
| "collapse_spaces [] = []"
  by pat_completeness auto

termination
  by (relation "measure length") (auto intro: le_imp_less_Suc length_dropWhile_le le_SucI)

text \<open>
  \<open>.replace(/\n{3,}/g, "\n\n")\<close>: a match that starts at three newlines takes the whole
  run of newlines, and two newlines replace it.
\<close>

function collapse_newlines :: "jsstring \<Rightarrow> jsstring" where
  "collapse_newlines (a # b # c # cs) =
     (if a = LF \<and> b = LF \<and> c = LF then LF # LF # collapse_newlines (dropWhile (\<lambda>x. x = LF) cs)
      else a # collapse_newlines (b # c # cs))"
| "collapse_newlines [a, b] = [a, b]"
| "collapse_newlines [a] = [a]"
| "collapse_newlines [] = []"
  by pat_completeness auto

termination
  by (relation "measure length") (auto intro: le_imp_less_Suc length_dropWhile_le le_SucI)

definition collapseWhitespace :: "jsstring \<Rightarrow> jsstring" where
  "collapseWhitespace str =
     trim (collapse_newlines (collapse_spaces (replace_tabs (replace_crlf str))))"

definition starts_with_whitespace :: "jsstring \<Rightarrow> bool" where
  "starts_with_whitespace s \<longleftrightarrow> s \<noteq> [] \<and> is_whitespace (hd s)"

definition ends_with_whitespace :: "jsstring \<Rightarrow> bool" where
  "ends_with_whitespace s \<longleftrightarrow> s \<noteq> [] \<and> is_whitespace (last s)"


section \<open>The document\<close>

text \<open>
  The script reads the page through the DOM. Of an element it reads \<open>tagName\<close>,
  \<open>innerText\<close>, \<open>textContent\<close>, \<open>children\<close> and, through \<open>window.getComputedStyle\<close>, the
  computed \<open>display\<close> and \<open>visibility\<close>; the selector engine reads the local name and the
  attributes. \<open>innerText\<close> is a property of HTML elements only: on any other element
  (an SVG one, say) the read gives \<open>undefined\<close>, here \<open>None\<close>. \<open>textContent\<close> of an
  element is always a string.
\<close>

datatype element = Element
  (localName: string)
  (tagName: string)
  (attributes: "(string \<times> string) list")
  (innerText: "jsstring option")
  (textContent: jsstring)
  (display: string)
  (visibility: string)
  (children: "element list")

text \<open>
  \<open>document.body\<close> is \<open>null\<close> in a document without a body element (an SVG or XML
  document shown in the tab, or a page whose script removed the body).
\<close>

record document =
  documentElement :: "element option"
  body :: "element option"

text \<open>The elements of a tree in document order (pre-order, the element itself first).\<close>

fun descendants :: "element \<Rightarrow> element list" where
  "descendants (Element ln tn as it tc d v cs) =
     Element ln tn as it tc d v cs # concat (map descendants cs)"

definition elements :: "document \<Rightarrow> element list" where
  "elements doc = (case documentElement doc of None \<Rightarrow> [] | Some r \<Rightarrow> descendants r)"

subsection \<open>Selectors\<close>

text \<open>
  The selectors of \<open>content.js\<close> are of five shapes: \<open>.c\<close>, \<open>#i\<close>, \<open>[n='v']\<close>, \<open>[n*='v']\<close>
  and a type selector. They are matched as in a document in no-quirks mode: class names,
  identifiers and attribute values compare case-sensitively, a type selector compares
  with the local name. The theorems below use nothing of \<open>matches\<close> but that
  \<open>querySelector\<close> gives the first element in document order that satisfies it.
\<close>

datatype selector =
  ClassSel string
| IdSel string
| AttrIs string string
| AttrHas string string
| TypeSel string

definition attribute :: "element \<Rightarrow> string \<Rightarrow> string option" where
  "attribute el n = map_of (attributes el) n"

definition ascii_space :: "char \<Rightarrow> bool" where
  "ascii_space c \<longleftrightarrow> c = CHR '' '' \<or> c = CHR 0x09 \<or> c = CHR 0x0A \<or> c = CHR 0x0C \<or> c = CHR 0x0D"

text \<open>The class attribute is a set of tokens separated by ASCII whitespace.\<close>

fun tokens :: "string \<Rightarrow> string \<Rightarrow> string list" where
  "tokens acc [] = (if acc = [] then [] else [rev acc])"
| "tokens acc (c # cs) =
     (if ascii_space c then (if acc = [] then tokens [] cs else rev acc # tokens [] cs)
      else tokens (c # acc) cs)"

fun matches :: "selector \<Rightarrow> element \<Rightarrow> bool" where
  "matches (ClassSel c) el =
     (case attribute el ''class'' of None \<Rightarrow> False | Some v \<Rightarrow> c \<in> set (tokens [] v))"
| "matches (IdSel i) el = (attribute el ''id'' = Some i)"
| "matches (AttrIs n v) el = (attribute el n = Some v)"
| "matches (AttrHas n v) el =
     (case attribute el n of None \<Rightarrow> False | Some a \<Rightarrow> v \<noteq> [] \<and> sublist v a)"
| "matches (TypeSel n) el = (localName el = n)"

text \<open>
  \<open>document.querySelector\<close> gives the first element in document order that matches, or
  \<open>null\<close>; \<open>document.querySelectorAll\<close> with a selector list gives, in document order, the
  elements that match one of the selectors.
\<close>

definition querySelector :: "document \<Rightarrow> selector \<Rightarrow> element option" where
  "querySelector doc sel = find (matches sel) (elements doc)"

definition querySelectorAll :: "document \<Rightarrow> selector list \<Rightarrow> element list" where
  "querySelectorAll doc sels = filter (\<lambda>el. \<exists>sel\<in>set sels. matches sel el) (elements doc)"

section \<open>The extraction\<close>

definition KNOWN_SELECTORS :: "selector list" where
  "KNOWN_SELECTORS =
    [ClassSel ''jobs-description__content'',
     ClassSel ''jobs-box__html-content'',
     IdSel ''jobDescriptionText'',
     ClassSel ''jobsearch-jobDescriptionText'',
     IdSel ''content'',
     ClassSel ''job__description'',
     ClassSel ''posting-description'',
     ClassSel ''section-wrapper'',
     AttrIs ''data-automation-id'' ''jobPostingDescription'',
     ClassSel ''job-description'',
     ClassSel ''job-sections'',
     ClassSel ''ashby-job-posting-brief-description'',
     AttrHas ''class'' ''job-description'',
     AttrHas ''class'' ''jobDescription'',
     AttrHas ''class'' ''job_description'',
     AttrHas ''id'' ''job-description'',
     AttrHas ''id'' ''jobDescription'',
     TypeSel ''article'',
     TypeSel ''main'']"

definition MIN_LENGTH :: nat where
  "MIN_LENGTH = 200"

text \<open>
  \<open>a || b\<close> where \<open>a\<close> is a string or \<open>undefined\<close> and \<open>b\<close> is a string: \<open>undefined\<close> and
  the empty string are falsy.
\<close>

definition js_or :: "jsstring option \<Rightarrow> jsstring \<Rightarrow> jsstring" where
  "js_or a b = (case a of None \<Rightarrow> b | Some s \<Rightarrow> if s = [] then b else s)"

text \<open>\<open>collapseWhitespace(el.innerText || el.textContent || "")\<close>, in both loops.\<close>

definition text_of :: "element \<Rightarrow> jsstring" where
  "text_of el = collapseWhitespace (js_or (Some (js_or (innerText el) (textContent el))) [])"

text \<open>The loop over \<open>KNOWN_SELECTORS\<close>; \<open>Some\<close> is its \<open>return text\<close>.\<close>

fun try_selectors :: "document \<Rightarrow> selector list \<Rightarrow> jsstring option" where
  "try_selectors doc [] = None"
| "try_selectors doc (selector # rest) =
     (case querySelector doc selector of
        None \<Rightarrow> try_selectors doc rest
      | Some el \<Rightarrow>
          (let text = text_of el
           in if MIN_LENGTH \<le> length text then Some text else try_selectors doc rest))"

definition BLOCK_TAGS :: "string list" where
  "BLOCK_TAGS = [''DIV'', ''SECTION'', ''ARTICLE'', ''MAIN'', ''P'', ''UL'', ''OL'', ''TABLE'']"

definition SKIP_TAGS :: "string list" where
  "SKIP_TAGS = [''SCRIPT'', ''STYLE'', ''NOSCRIPT'', ''IFRAME'',
                ''HEADER'', ''FOOTER'', ''NAV'', ''ASIDE'', ''FORM'']"

definition CANDIDATES :: "selector list" where
  "CANDIDATES = [TypeSel ''div'', TypeSel ''section'', TypeSel ''article'', TypeSel ''main'']"

definition directBlockChildren :: "element \<Rightarrow> nat" where
  "directBlockChildren el = length (filter (\<lambda>c. tagName c \<in> set BLOCK_TAGS) (children el))"

text \<open>
  The loop over the candidates; the state is \<open>(bestElement, bestLength)\<close>, and each
  \<open>continue\<close> leaves it as it is.
\<close>

fun scan :: "element list \<Rightarrow> element option \<times> nat \<Rightarrow> element option \<times> nat" where
  "scan [] best = best"
| "scan (el # els) (bestElement, bestLength) =
     (if display el = ''none'' \<or> visibility el = ''hidden'' then scan els (bestElement, bestLength)
      else if tagName el \<in> set SKIP_TAGS then scan els (bestElement, bestLength)
      else if directBlockChildren el > 12 then scan els (bestElement, bestLength)
      else
        (let text = text_of el
         in if length text > bestLength then scan els (Some el, length text)
            else scan els (bestElement, bestLength)))"

definition selector_tier :: "document \<Rightarrow> jsstring option" where
  "selector_tier doc = try_selectors doc KNOWN_SELECTORS"

text \<open>
  \<open>if (bestElement && bestLength >= MIN_LENGTH) return
  collapseWhitespace(bestElement.innerText || bestElement.textContent)\<close>
\<close>

definition heuristic_tier :: "document \<Rightarrow> jsstring option" where
  "heuristic_tier doc =
     (case scan (querySelectorAll doc CANDIDATES) (None, 0) of
        (None, bestLength) \<Rightarrow> None
      | (Some bestElement, bestLength) \<Rightarrow>
          if MIN_LENGTH \<le> bestLength
          then Some (collapseWhitespace (js_or (innerText bestElement) (textContent bestElement)))
          else None)"

text \<open>\<open>const bodyText = collapseWhitespace(document.body.innerText || "")\<close>\<close>

definition bodyText :: "element \<Rightarrow> jsstring" where
  "bodyText b = collapseWhitespace (js_or (innerText b) [])"

text \<open>
  \<open>return bodyText.slice(0, 8000)\<close>. Reading a property of \<open>null\<close> throws a
  \<open>TypeError\<close>, which nothing in the script catches.
\<close>

datatype error = TypeError

definition last_resort :: "document \<Rightarrow> error + jsstring" where
  "last_resort doc =
     (case body doc of
        None \<Rightarrow> Inl TypeError
      | Some b \<Rightarrow> Inr (take 8000 (bodyText b)))"

definition extractJobDescription :: "document \<Rightarrow> error + jsstring" where
  "extractJobDescription doc =
     (case selector_tier doc of
        Some text \<Rightarrow> Inr text
      | None \<Rightarrow>
          (case heuristic_tier doc of
             Some text \<Rightarrow> Inr text
           | None \<Rightarrow> last_resort doc))"

section \<open>Notions of the specification\<close>

text \<open>A selector qualifies when its match, the element \<open>querySelector\<close> gives, has enough text.\<close>

definition qualifies :: "document \<Rightarrow> selector \<Rightarrow> bool" where
  "qualifies doc sel =
     (case querySelector doc sel of None \<Rightarrow> False | Some el \<Rightarrow> MIN_LENGTH \<le> length (text_of el))"

definition hidden :: "element \<Rightarrow> bool" where
  "hidden el \<longleftrightarrow> display el = ''none'' \<or> visibility el = ''hidden''"

text \<open>
  The candidates of the heuristic tier: of kind div, section, article or main, visible,
  not of an excluded kind, with at most 12 direct block-level children.
\<close>

definition eligible :: "element \<Rightarrow> bool" where
  "eligible el \<longleftrightarrow> \<not> hidden el \<and> tagName el \<notin> set SKIP_TAGS \<and> directBlockChildren el \<le> 12"

definition heuristic_candidates :: "document \<Rightarrow> element list" where
  "heuristic_candidates doc = filter eligible (querySelectorAll doc CANDIDATES)"

text \<open>The last-resort path is taken and its \<open>slice\<close> cuts the normalized body text.\<close>

definition last_resort_cuts :: "document \<Rightarrow> bool" where
  "last_resort_cuts doc \<longleftrightarrow>
     selector_tier doc = None \<and> heuristic_tier doc = None \<and>
     (case body doc of None \<Rightarrow> False | Some b \<Rightarrow> 8000 < length (bodyText b))"

section \<open>Example documents\<close>

text \<open>
  Pages on which the theorems below are instantiated. The letters \<open>a\<close>, \<open>b\<close>, \<open>c\<close> are
  the code units 0x61, 0x62, 0x63.
\<close>

text \<open>A rendered HTML element whose \<open>innerText\<close> is its \<open>textContent\<close>.\<close>

definition rendered :: "string \<Rightarrow> string \<Rightarrow> (string \<times> string) list \<Rightarrow> jsstring \<Rightarrow> element list \<Rightarrow> element" where
  "rendered ln tn as txt cs = Element ln tn as (Some txt) txt ''block'' ''visible'' cs"

definition page :: "jsstring \<Rightarrow> element list \<Rightarrow> document" where
  "page txt cs =
     \<lparr>documentElement = Some (rendered ''html'' ''HTML'' [] txt [rendered ''body'' ''BODY'' [] txt cs]),
      body = Some (rendered ''body'' ''BODY'' [] txt cs)\<rparr>"

definition job_div :: element where
  "job_div = rendered ''div'' ''DIV'' [(''id'', ''jobDescriptionText'')] (replicate 300 0x61) []"

definition big_div :: element where
  "big_div = rendered ''div'' ''DIV'' [(''class'', ''sidebar'')] (replicate 1000 0x62) []"

definition big_main :: element where
  "big_main = rendered ''main'' ''MAIN'' [] (replicate 1000 0x63) []"

definition indeed_page :: document where
  "indeed_page =
     page (replicate 300 0x61 @ LF # replicate 1000 0x62 @ LF # replicate 1000 0x63)
       [job_div, big_div, big_main]"

definition short_div :: element where
  "short_div = rendered ''div'' ''DIV'' [] (replicate 250 0x63) []"

definition tie_a :: element where
  "tie_a = rendered ''div'' ''DIV'' [] (replicate 300 0x61) []"

definition tie_b :: element where
  "tie_b = rendered ''section'' ''SECTION'' [] (replicate 300 0x62) []"

definition hidden_div :: element where
  "hidden_div =
     Element ''div'' ''DIV'' [] (Some (replicate 1000 0x63)) (replicate 1000 0x63)
       ''none'' ''visible'' []"

definition para :: element where
  "para = rendered ''p'' ''P'' [] (replicate 100 0x61) []"

definition wrapper :: element where
  "wrapper =
     rendered ''div'' ''DIV'' [] (replicate 1300 0x61)
       [para, para, para, para, para, para, para, para, para, para, para, para, para]"

definition careers_page :: document where
  "careers_page =
     page (replicate 1300 0x61 @ replicate 250 0x63 @ replicate 300 0x61 @ replicate 300 0x62)
       [wrapper, hidden_div, short_div, tie_a, tie_b]"

definition stub_div :: element where
  "stub_div =
     rendered ''div'' ''DIV'' [] (replicate 50 0x61)
       [rendered ''div'' ''DIV'' [] (replicate 50 0x61)
         [rendered ''div'' ''DIV'' [] (replicate 50 0x61)
           [rendered ''p'' ''P'' [] (replicate 50 0x61) []]]]"

definition stub_page :: document where
  "stub_page = page (replicate 50 0x61) [stub_div]"

definition svg_document :: document where
  "svg_document =
     \<lparr>documentElement =
        Some (Element ''svg'' ''svg'' [] None (replicate 5 0x61) ''inline'' ''visible''
          [Element ''text'' ''text'' [] None (replicate 5 0x61) ''block'' ''visible'' []]),
      body = None\<rparr>"

definition long_page :: document where
  "long_page =
     page (replicate 7999 0x61 @ [SP, 0x62])
       [rendered ''p'' ''P'' [] (replicate 7999 0x61 @ [SP, 0x62]) []]"

definition hidden_job_div :: element where
  "hidden_job_div =
     Element ''div'' ''DIV'' [(''id'', ''jobDescriptionText'')]
       (Some (replicate 300 0x61)) (replicate 300 0x61) ''none'' ''visible'' []"

definition hidden_page :: document where
  "hidden_page = page (replicate 1000 0x62) [hidden_job_div, big_div]"

definition intro_section :: element where
  "intro_section =
     rendered ''div'' ''DIV'' [(''class'', ''section-wrapper page-centered'')] (replicate 50 0x61) []"

definition posting_section :: element where
  "posting_section =
     rendered ''div'' ''DIV'' [(''class'', ''section-wrapper'')] (replicate 300 0x62) []"

definition lever_page :: document where
  "lever_page =
     page (replicate 50 0x61 @ LF # replicate 300 0x62) [intro_section, posting_section]"

section \<open>Properties\<close>

subsection \<open>The passes of the normalizer\<close>

text \<open>
  No pass after the first adds a code unit, and \<open>trim\<close> returns a contiguous part of its
  input; so what one pass removes for good stays removed.
\<close>

lemma set_collapse_spaces: "set (collapse_spaces s) \<subseteq> set s"
proof (induction s rule: collapse_spaces.induct)
  case (1 c d cs)
  have "set (dropWhile (\<lambda>x. x = SP) cs) \<subseteq> set cs" by (auto dest: set_dropWhileD)
  with 1 show ?case by auto
qed simp_all

lemma set_collapse_newlines: "set (collapse_newlines s) \<subseteq> set s"
proof (induction s rule: collapse_newlines.induct)
  case (1 a b c cs)
  have "set (dropWhile (\<lambda>x. x = LF) cs) \<subseteq> set cs" by (auto dest: set_dropWhileD)
  with 1 show ?case by auto
qed simp_all

lemma prefix_rev_dropWhile_rev: "prefix (rev (dropWhile P (rev t))) t"
proof -
  have "suffix (dropWhile P (rev t)) (rev t)" by (rule suffix_dropWhile)
  then obtain zs where "rev t = zs @ dropWhile P (rev t)" by (auto simp: suffix_def)
  then have "rev (rev t) = rev (zs @ dropWhile P (rev t))" by simp
  then have "t = rev (dropWhile P (rev t)) @ rev zs" by (simp only: rev_append rev_rev_ident)
  then show ?thesis by (rule prefixI)
qed

lemma prefix_trim: "prefix (trim s) (dropWhile is_whitespace s)"
  unfolding trim_def by (rule prefix_rev_dropWhile_rev)

lemma sublist_trim: "sublist (trim s) s"
proof -
  have "sublist (trim s) (dropWhile is_whitespace s)"
    using prefix_trim by (rule prefix_imp_sublist)
  moreover have "sublist (dropWhile is_whitespace s) s" by (rule sublist_dropWhile)
  ultimately show ?thesis by (rule sublist_order.order_trans)
qed

lemma replace_tabs_no_tab: "TAB \<notin> set (replace_tabs s)"
  by (auto simp: replace_tabs_def)

lemma last_trim: "trim s \<noteq> [] \<Longrightarrow> \<not> is_whitespace (last (trim s))"
proof -
  assume ne: "trim s \<noteq> []"
  define u where "u = dropWhile is_whitespace (rev (dropWhile is_whitespace s))"
  have tu: "trim s = rev u" by (simp add: trim_def u_def)
  with ne have "u \<noteq> []" by simp
  then have "\<not> is_whitespace (hd u)" unfolding u_def by (rule hd_dropWhile)
  moreover have "last (rev u) = hd u" using \<open>u \<noteq> []\<close> by (simp add: last_rev)
  ultimately show ?thesis by (simp add: tu)
qed

lemma hd_trim: "trim s \<noteq> [] \<Longrightarrow> \<not> is_whitespace (hd (trim s))"
proof -
  assume ne: "trim s \<noteq> []"
  define t where "t = dropWhile is_whitespace s"
  have "prefix (trim s) t" unfolding t_def by (rule prefix_trim)
  then obtain r where r: "t = trim s @ r" by (auto simp: prefix_def)
  with ne have tne: "t \<noteq> []" by simp
  then have h: "\<not> is_whitespace (hd t)" unfolding t_def by (rule hd_dropWhile)
  have "hd t = hd (trim s)" by (simp only: r hd_append2[OF ne])
  with h show ?thesis by simp
qed

lemma collapse_spaces_Cons: "\<exists>ys. collapse_spaces (x # xs) = x # ys"
  by (cases xs) auto

lemma collapse_newlines_Cons: "\<exists>ys. collapse_newlines (x # xs) = x # ys"
proof (cases xs)
  case Nil
  then show ?thesis by simp
next
  case (Cons y ys)
  note c1 = this
  show ?thesis
  proof (cases ys)
    case Nil
    with c1 show ?thesis by simp
  next
    case (Cons z zs)
    with c1 show ?thesis by simp
  qed
qed

lemma collapse_newlines_Cons2: "\<exists>ys. collapse_newlines (x # y # xs) = x # y # ys"
proof (cases xs)
  case Nil
  then show ?thesis by simp
next
  case (Cons z zs)
  obtain ys where "collapse_newlines (y # z # zs) = y # ys"
    using collapse_newlines_Cons by blast
  with Cons show ?thesis by simp
qed

lemma prefix1_collapse_spaces: "prefix [a] (collapse_spaces r) \<longleftrightarrow> prefix [a] r"
proof (cases r)
  case (Cons x xs)
  obtain ys where "collapse_spaces (x # xs) = x # ys" using collapse_spaces_Cons by blast
  with Cons show ?thesis by simp
qed simp

lemma prefix1_collapse_newlines: "prefix [a] (collapse_newlines r) \<longleftrightarrow> prefix [a] r"
proof (cases r)
  case (Cons x xs)
  obtain ys where "collapse_newlines (x # xs) = x # ys" using collapse_newlines_Cons by blast
  with Cons show ?thesis by simp
qed simp

lemma dropWhile_eq_not_prefix: "\<not> prefix [a] (dropWhile (\<lambda>x. x = a) cs)"
  by (induction cs) auto

lemma collapse_spaces_no_pair: "\<not> sublist [SP, SP] (collapse_spaces s)"
proof (induction s rule: collapse_spaces.induct)
  case (1 c d cs)
  show ?case
  proof (cases "c = SP \<and> d = SP")
    case True
    define r where "r = dropWhile (\<lambda>x. x = SP) cs"
    have "\<not> prefix [SP] r" unfolding r_def by (rule dropWhile_eq_not_prefix)
    then have "\<not> prefix [SP] (collapse_spaces r)"
      by (simp add: prefix1_collapse_spaces)
    moreover have "\<not> sublist [SP, SP] (collapse_spaces r)" using 1(1) True r_def by simp
    ultimately show ?thesis using True by (simp add: sublist_Cons_right r_def)
  next
    case False
    obtain ys where ys: "collapse_spaces (d # cs) = d # ys" using collapse_spaces_Cons by blast
    with 1(2) False show ?thesis by (auto simp: sublist_Cons_right)
  qed
qed (simp_all add: sublist_Cons_right)

lemma collapse_newlines_no_triple: "\<not> sublist [LF, LF, LF] (collapse_newlines s)"
proof (induction s rule: collapse_newlines.induct)
  case (1 a b c cs)
  show ?case
  proof (cases "a = LF \<and> b = LF \<and> c = LF")
    case True
    define r where "r = dropWhile (\<lambda>x. x = LF) cs"
    have "\<not> prefix [LF] r" unfolding r_def by (rule dropWhile_eq_not_prefix)
    then have n1: "\<not> prefix [LF] (collapse_newlines r)"
      by (simp add: prefix1_collapse_newlines)
    from n1 have "\<not> prefix [LF, LF] (collapse_newlines r)"
      by (auto simp: prefix_def)
    with n1 have "\<not> prefix [LF] (collapse_newlines r) \<and> \<not> prefix [LF, LF] (collapse_newlines r)"
      by simp
    moreover have "\<not> sublist [LF, LF, LF] (collapse_newlines r)" using 1(1) True r_def by simp
    ultimately show ?thesis using True by (simp add: sublist_Cons_right r_def)
  next
    case False
    obtain ys where ys: "collapse_newlines (b # c # cs) = b # c # ys"
      using collapse_newlines_Cons2 by blast
    with 1(2) False show ?thesis by (auto simp: sublist_Cons_right)
  qed
qed (simp_all add: sublist_Cons_right)

lemma pair_collapse_spaces:
  "a \<noteq> SP \<Longrightarrow> sublist [a, b] (collapse_spaces s) \<Longrightarrow> sublist [a, b] s"
proof (induction s rule: collapse_spaces.induct)
  case (1 c d cs)
  show ?case
  proof (cases "c = SP \<and> d = SP")
    case True
    with 1(4) 1(3) have "sublist [a, b] (collapse_spaces (dropWhile (\<lambda>x. x = SP) cs))"
      by (simp add: sublist_Cons_right)
    with 1(1) True 1(3) have "sublist [a, b] (dropWhile (\<lambda>x. x = SP) cs)" by simp
    then have "sublist [a, b] cs"
      by (meson sublist_dropWhile sublist_order.order_trans)
    then show ?thesis by (simp add: sublist_Cons_right)
  next
    case False
    obtain ys where ys: "collapse_spaces (d # cs) = d # ys" using collapse_spaces_Cons by blast
    with 1(2) 1(3) 1(4) False show ?thesis by (auto simp: sublist_Cons_right)
  qed
qed simp_all

lemma pair_collapse_newlines:
  "a \<noteq> LF \<Longrightarrow> sublist [a, b] (collapse_newlines s) \<Longrightarrow> sublist [a, b] s"
proof (induction s rule: collapse_newlines.induct)
  case (1 x y z cs)
  show ?case
  proof (cases "x = LF \<and> y = LF \<and> z = LF")
    case True
    with 1(4) 1(3) have "sublist [a, b] (collapse_newlines (dropWhile (\<lambda>x. x = LF) cs))"
      by (simp add: sublist_Cons_right)
    with 1(1) True 1(3) have "sublist [a, b] (dropWhile (\<lambda>x. x = LF) cs)" by simp
    then have "sublist [a, b] cs"
      by (meson sublist_dropWhile sublist_order.order_trans)
    then show ?thesis by (simp add: sublist_Cons_right)
  next
    case False
    obtain ys where ys: "collapse_newlines (y # z # cs) = y # z # ys"
      using collapse_newlines_Cons2 by blast
    with 1(2) 1(3) 1(4) False show ?thesis by (auto simp: sublist_Cons_right)
  qed
qed simp_all

lemma replace_tabs_simps:
  "replace_tabs [] = []"
  "replace_tabs (c # cs) = (if c = TAB then SP else c) # replace_tabs cs"
  by (simp_all add: replace_tabs_def)

lemma prefix2_replace_tabs:
  assumes "a \<noteq> SP" "b \<noteq> SP" "prefix [a, b] (replace_tabs s)"
  shows "prefix [a, b] s"
proof (cases s)
  case Nil
  with assms show ?thesis by (simp add: replace_tabs_simps)
next
  case (Cons c cs)
  note c = this
  show ?thesis
  proof (cases cs)
    case Nil
    with c assms show ?thesis by (simp add: replace_tabs_simps)
  next
    case (Cons d ds)
    from assms(3) c Cons
    have "(if c = TAB then SP else c) = a" "(if d = TAB then SP else d) = b"
      by (simp_all add: replace_tabs_simps)
    with assms(1,2) have "c = a" "d = b" by (metis)+
    with c Cons show ?thesis by simp
  qed
qed

lemma pair_replace_tabs:
  "a \<noteq> SP \<Longrightarrow> b \<noteq> SP \<Longrightarrow> sublist [a, b] (replace_tabs s) \<Longrightarrow> sublist [a, b] s"
proof (induction s)
  case Nil
  then show ?case by (simp add: replace_tabs_simps)
next
  case (Cons c cs)
  from Cons.prems(3)
  have "prefix [a, b] (replace_tabs (c # cs)) \<or> sublist [a, b] (replace_tabs cs)"
    by (simp add: replace_tabs_simps sublist_Cons_right)
  then show ?case
  proof
    assume "prefix [a, b] (replace_tabs (c # cs))"
    then have "prefix [a, b] (c # cs)" using Cons.prems(1,2) by (rule prefix2_replace_tabs[rotated 2])
    then show ?thesis by (rule prefix_imp_sublist)
  next
    assume "sublist [a, b] (replace_tabs cs)"
    then have "sublist [a, b] cs" using Cons by blast
    then show ?thesis by (simp add: sublist_Cons_right)
  qed
qed

text \<open>Each pass leaves a string alone that has nothing for it to replace.\<close>

lemma replace_crlf_fix: "\<not> sublist [CR, LF] s \<Longrightarrow> replace_crlf s = s"
  by (induction s rule: replace_crlf.induct) (auto simp: sublist_Cons_right)

lemma replace_tabs_fix: "TAB \<notin> set s \<Longrightarrow> replace_tabs s = s"
  by (induction s) (auto simp: replace_tabs_def)

lemma collapse_spaces_fix: "\<not> sublist [SP, SP] s \<Longrightarrow> collapse_spaces s = s"
  by (induction s rule: collapse_spaces.induct) (auto simp: sublist_Cons_right)

lemma collapse_newlines_fix: "\<not> sublist [LF, LF, LF] s \<Longrightarrow> collapse_newlines s = s"
  by (induction s rule: collapse_newlines.induct) (auto simp: sublist_Cons_right)

lemma trim_fix:
  assumes "s \<noteq> [] \<longrightarrow> \<not> is_whitespace (hd s) \<and> \<not> is_whitespace (last s)"
  shows "trim s = s"
proof (cases s)
  case Nil
  then show ?thesis by (simp add: trim_def)
next
  case (Cons c cs)
  with assms have h: "\<not> is_whitespace c" and l: "\<not> is_whitespace (last s)" by auto
  from h Cons have "dropWhile is_whitespace s = s" by simp
  moreover have "dropWhile is_whitespace (rev s) = rev s"
    using l by (simp add: dropWhile_eq_self_iff hd_rev)
  ultimately show ?thesis by (simp add: trim_def)
qed

lemma prefix1_replace_crlf:
  "prefix [LF] (replace_crlf s) \<Longrightarrow> prefix [LF] s \<or> prefix [CR, LF] s"
  by (cases s rule: replace_crlf.cases) (auto split: if_splits)

lemma crlf_replace_crlf:
  "\<not> sublist [CR, CR, LF] s \<Longrightarrow> \<not> sublist [CR, LF] (replace_crlf s)"
proof (induction s rule: replace_crlf.induct)
  case (1 c d cs)
  show ?case
  proof (cases "c = CR \<and> d = LF")
    case True
    with 1 show ?thesis by (auto simp: sublist_Cons_right)
  next
    case False
    have "\<not> sublist [CR, LF] (replace_crlf (d # cs))"
      using 1(2) 1(3) False by (auto simp: sublist_Cons_right)
    moreover have "\<not> (c = CR \<and> prefix [LF] (replace_crlf (d # cs)))"
    proof
      assume a: "c = CR \<and> prefix [LF] (replace_crlf (d # cs))"
      then have "prefix [LF] (d # cs) \<or> prefix [CR, LF] (d # cs)"
        using prefix1_replace_crlf by blast
      with a False 1(3) show False by (auto simp: sublist_Cons_right)
    qed
    ultimately show ?thesis using False by (auto simp: sublist_Cons_right)
  qed
qed (simp_all add: sublist_Cons_right)

lemma set_replace_crlf: "set (replace_crlf s) \<subseteq> set s"
  by (induction s rule: replace_crlf.induct) auto

subsection \<open>The normalizer as a whole\<close>

lemma set_trim: "set (trim s) \<subseteq> set s"
  using sublist_trim by (rule set_mono_sublist)


lemma tab_collapseWhitespace: "TAB \<notin> set (collapseWhitespace x)"
proof -
  have "set (collapseWhitespace x) \<subseteq> set (replace_tabs (replace_crlf x))"
    unfolding collapseWhitespace_def
    using set_trim set_collapse_newlines set_collapse_spaces by (meson subset_trans)
  then show ?thesis using replace_tabs_no_tab by blast
qed

lemma spaces_collapseWhitespace: "\<not> sublist [SP, SP] (collapseWhitespace x)"
proof
  assume "sublist [SP, SP] (collapseWhitespace x)"
  then have "sublist [SP, SP] (collapse_newlines (collapse_spaces (replace_tabs (replace_crlf x))))"
    unfolding collapseWhitespace_def using sublist_trim by (rule sublist_order.order_trans)
  then have "sublist [SP, SP] (collapse_spaces (replace_tabs (replace_crlf x)))"
    by (rule pair_collapse_newlines[rotated]) simp
  then show False using collapse_spaces_no_pair by blast
qed

lemma newlines_collapseWhitespace: "\<not> sublist [LF, LF, LF] (collapseWhitespace x)"
proof
  assume "sublist [LF, LF, LF] (collapseWhitespace x)"
  then have "sublist [LF, LF, LF] (collapse_newlines (collapse_spaces (replace_tabs (replace_crlf x))))"
    unfolding collapseWhitespace_def using sublist_trim by (rule sublist_order.order_trans)
  then show False using collapse_newlines_no_triple by blast
qed

lemma ends_collapseWhitespace:
  "\<not> starts_with_whitespace (collapseWhitespace x)" "\<not> ends_with_whitespace (collapseWhitespace x)"
  unfolding collapseWhitespace_def starts_with_whitespace_def ends_with_whitespace_def
  using hd_trim last_trim by blast+

lemma collapseWhitespace_facts:
  "TAB \<notin> set (collapseWhitespace x)" "\<not> sublist [LF, LF, LF] (collapseWhitespace x)"
  "\<not> starts_with_whitespace (collapseWhitespace x)" "\<not> ends_with_whitespace (collapseWhitespace x)"
  using tab_collapseWhitespace newlines_collapseWhitespace ends_collapseWhitespace by blast+

lemma collapseWhitespace_fix:
  assumes "\<not> sublist [CR, LF] s" "TAB \<notin> set s" "\<not> sublist [SP, SP] s"
    "\<not> sublist [LF, LF, LF] s" "\<not> starts_with_whitespace s" "\<not> ends_with_whitespace s"
  shows "collapseWhitespace s = s"
proof -
  have "trim s = s"
    using assms(5,6) by (intro trim_fix) (auto simp: starts_with_whitespace_def ends_with_whitespace_def)
  then show ?thesis
    unfolding collapseWhitespace_def
    by (simp add: replace_crlf_fix[OF assms(1)] replace_tabs_fix[OF assms(2)]
        collapse_spaces_fix[OF assms(3)] collapse_newlines_fix[OF assms(4)])
qed

lemma crlf_collapseWhitespace:
  assumes "\<not> sublist [CR, CR, LF] x"
  shows "\<not> sublist [CR, LF] (collapseWhitespace x)"
proof
  assume "sublist [CR, LF] (collapseWhitespace x)"
  then have "sublist [CR, LF] (collapse_newlines (collapse_spaces (replace_tabs (replace_crlf x))))"
    unfolding collapseWhitespace_def using sublist_trim by (rule sublist_order.order_trans)
  then have "sublist [CR, LF] (collapse_spaces (replace_tabs (replace_crlf x)))"
    by (rule pair_collapse_newlines[rotated]) simp
  then have "sublist [CR, LF] (replace_tabs (replace_crlf x))"
    by (rule pair_collapse_spaces[rotated]) simp
  then have "sublist [CR, LF] (replace_crlf x)"
    by (rule pair_replace_tabs[rotated 2]) simp_all
  then show False using crlf_replace_crlf[OF assms] by blast
qed

lemma length_replace_crlf: "length (replace_crlf s) \<le> length s"
  by (induction s rule: replace_crlf.induct) auto

lemma length_replace_crlf_less: "sublist [CR, LF] s \<Longrightarrow> length (replace_crlf s) < length s"
proof (induction s rule: replace_crlf.induct)
  case (1 c d cs)
  show ?case
  proof (cases "c = CR \<and> d = LF")
    case True
    then show ?thesis using length_replace_crlf[of cs] by simp
  next
    case False
    with 1(3) have "sublist [CR, LF] (d # cs)" by (auto simp: sublist_Cons_right)
    with 1(2) False have "length (replace_crlf (d # cs)) < length (d # cs)" by blast
    moreover have "replace_crlf (c # d # cs) = c # replace_crlf (d # cs)" using False by auto
    ultimately show ?thesis by simp
  qed
qed (simp_all add: sublist_Cons_right)

lemma length_collapse_spaces: "length (collapse_spaces s) \<le> length s"
proof (induction s rule: collapse_spaces.induct)
  case (1 c d cs)
  have "length (dropWhile (\<lambda>x. x = SP) cs) \<le> length cs" by (rule length_dropWhile_le)
  with 1 show ?case by auto
qed simp_all

lemma length_collapse_newlines: "length (collapse_newlines s) \<le> length s"
proof (induction s rule: collapse_newlines.induct)
  case (1 a b c cs)
  have "length (dropWhile (\<lambda>x. x = LF) cs) \<le> length cs" by (rule length_dropWhile_le)
  with 1 show ?case by auto
qed simp_all

lemma length_collapseWhitespace_less:
  assumes "sublist [CR, LF] s"
  shows "length (collapseWhitespace s) < length s"
proof -
  have "length (collapseWhitespace s) \<le> length (collapse_newlines (collapse_spaces (replace_tabs (replace_crlf s))))"
    unfolding collapseWhitespace_def using sublist_trim by (rule sublist_length_le)
  also have "\<dots> \<le> length (collapse_spaces (replace_tabs (replace_crlf s)))"
    by (rule length_collapse_newlines)
  also have "\<dots> \<le> length (replace_tabs (replace_crlf s))"
    by (rule length_collapse_spaces)
  also have "\<dots> = length (replace_crlf s)" by (simp add: replace_tabs_def)
  also have "\<dots> < length s" using assms by (rule length_replace_crlf_less)
  finally show ?thesis .
qed




text \<open>Strings of the example documents: a run of one letter, and what may follow it.\<close>

lemma sublist_replicate_append:
  assumes "a \<notin> set p" "p \<noteq> []"
  shows "sublist p (replicate n a @ ys) \<longleftrightarrow> sublist p ys"
proof (induction n)
  case 0
  show ?case by simp
next
  case (Suc n)
  have "\<not> prefix p (a # replicate n a @ ys)"
    using assms by (cases p) auto
  with Suc show ?case by (simp add: sublist_Cons_right)
qed

lemma not_whitespace_neq:
  "\<not> is_whitespace a \<Longrightarrow> a \<noteq> TAB \<and> a \<noteq> LF \<and> a \<noteq> CR \<and> a \<noteq> SP"
  by (auto simp: is_whitespace_def)

lemma collapseWhitespace_replicate_append:
  assumes a: "\<not> is_whitespace a" and n: "0 < n"
    and ys: "\<not> sublist [CR, LF] ys" "TAB \<notin> set ys" "\<not> sublist [SP, SP] ys"
    "\<not> sublist [LF, LF, LF] ys" "ys = [] \<or> \<not> is_whitespace (last ys)"
  shows "collapseWhitespace (replicate n a @ ys) = replicate n a @ ys"
proof (rule collapseWhitespace_fix)
  note neq = not_whitespace_neq[OF a]
  show "\<not> sublist [CR, LF] (replicate n a @ ys)"
    using ys(1) neq by (simp add: sublist_replicate_append)
  show "TAB \<notin> set (replicate n a @ ys)" using ys(2) neq by auto
  show "\<not> sublist [SP, SP] (replicate n a @ ys)"
    using ys(3) neq by (simp add: sublist_replicate_append)
  show "\<not> sublist [LF, LF, LF] (replicate n a @ ys)"
    using ys(4) neq by (simp add: sublist_replicate_append)
  show "\<not> starts_with_whitespace (replicate n a @ ys)"
    using a n by (cases n) (simp_all add: starts_with_whitespace_def)
  show "\<not> ends_with_whitespace (replicate n a @ ys)"
    using a n ys(5) by (cases "ys = []") (simp_all add: ends_with_whitespace_def)
qed

lemma collapseWhitespace_replicate:
  "\<not> is_whitespace a \<Longrightarrow> collapseWhitespace (replicate n a) = replicate n a"
proof (cases n)
  case 0
  then show ?thesis by (simp add: collapseWhitespace_def replace_tabs_def trim_def)
next
  case (Suc m)
  assume "\<not> is_whitespace a"
  then show ?thesis
    using collapseWhitespace_replicate_append[of a n "[]"] Suc by simp
qed

text \<open>
  C7. For every input string, the output of \<open>collapseWhitespace\<close> contains no tab, no two
  consecutive spaces, no three consecutive newlines, and neither starts nor ends with a
  whitespace code unit.
\<close>

theorem collapseWhitespace_output:
  "TAB \<notin> set (collapseWhitespace x) \<and>
   \<not> sublist [SP, SP] (collapseWhitespace x) \<and>
   \<not> sublist [LF, LF, LF] (collapseWhitespace x) \<and>
   \<not> starts_with_whitespace (collapseWhitespace x) \<and>
   \<not> ends_with_whitespace (collapseWhitespace x)"
  using tab_collapseWhitespace spaces_collapseWhitespace newlines_collapseWhitespace
    ends_collapseWhitespace by blast

text \<open>
  C5, as stated, fails: a carriage return in front of CR LF is left in front of the LF that
  replaces the pair, and the second pass removes it. On \<open>"a\r\r\nb"\<close> the first pass gives
  \<open>"a\r\nb"\<close> and the second \<open>"a\nb"\<close>.
\<close>

theorem collapseWhitespace_not_idempotent:
  "collapseWhitespace (collapseWhitespace [0x61, CR, CR, LF, 0x62])
     \<noteq> collapseWhitespace [0x61, CR, CR, LF, 0x62]"
  by (simp add: collapseWhitespace_def replace_tabs_def trim_def is_whitespace_def)

text \<open>
  C5, amended. \<open>collapseWhitespace\<close> is idempotent on every input string that has no
  carriage return immediately in front of a CR LF pair, in particular on every string
  without carriage returns. For any input, a second pass changes nothing exactly when
  the first pass left no CR LF pair.
\<close>

theorem collapseWhitespace_idempotent_iff:
  "(\<not> sublist [CR, CR, LF] x \<longrightarrow>
      collapseWhitespace (collapseWhitespace x) = collapseWhitespace x) \<and>
   (collapseWhitespace (collapseWhitespace x) = collapseWhitespace x \<longleftrightarrow>
      \<not> sublist [CR, LF] (collapseWhitespace x))"
proof -
  have fixed: "collapseWhitespace (collapseWhitespace x) = collapseWhitespace x"
    if "\<not> sublist [CR, LF] (collapseWhitespace x)"
    using that tab_collapseWhitespace spaces_collapseWhitespace newlines_collapseWhitespace
      ends_collapseWhitespace by (intro collapseWhitespace_fix)
  have "\<not> sublist [CR, LF] (collapseWhitespace x)"
    if "collapseWhitespace (collapseWhitespace x) = collapseWhitespace x"
    using that length_collapseWhitespace_less[of "collapseWhitespace x"] by auto
  with fixed crlf_collapseWhitespace show ?thesis by blast
qed

theorem collapseWhitespace_idempotent_witness:
  "\<not> sublist [CR, CR, LF] [0x61, CR, LF, SP, SP, 0x62] \<and>
   collapseWhitespace (collapseWhitespace [0x61, CR, LF, SP, SP, 0x62])
     = collapseWhitespace [0x61, CR, LF, SP, SP, 0x62]"
proof -
  have h: "\<not> sublist [CR, CR, LF] [0x61, CR, LF, SP, SP, 0x62 :: code_unit]"
    by (simp add: sublist_Cons_right)
  with collapseWhitespace_idempotent_iff[of "[0x61, CR, LF, SP, SP, 0x62]"]
  show ?thesis by blast
qed




subsection \<open>The selector loop\<close>

lemma js_or_Some_Nil: "js_or (Some x) [] = x"
  by (simp add: js_or_def)

lemma text_of_eq: "text_of el = collapseWhitespace (js_or (innerText el) (textContent el))"
  by (simp add: text_of_def js_or_Some_Nil)

lemma try_selectors_hit:
  "querySelector doc sel = Some el \<Longrightarrow> MIN_LENGTH \<le> length (text_of el) \<Longrightarrow>
   try_selectors doc (sel # rest) = Some (text_of el)"
  by simp

lemma try_selectors_miss:
  "\<not> qualifies doc sel \<Longrightarrow> try_selectors doc (sel # rest) = try_selectors doc rest"
  by (simp add: qualifies_def split: option.splits)

lemma try_selectors_skip:
  "\<forall>s\<in>set pre. \<not> qualifies doc s \<Longrightarrow> try_selectors doc (pre @ rest) = try_selectors doc rest"
proof (induction pre)
  case Nil
  show ?case by simp
next
  case (Cons s pre)
  then have "\<not> qualifies doc s" by simp
  then have "try_selectors doc ((s # pre) @ rest) = try_selectors doc (pre @ rest)"
    using try_selectors_miss by simp
  with Cons show ?case by simp
qed

lemma try_selectors_None:
  "\<forall>s\<in>set sels. \<not> qualifies doc s \<Longrightarrow> try_selectors doc sels = None"
  using try_selectors_skip[of sels doc "[]"] by simp

lemma try_selectors_Some:
  "try_selectors doc sels = Some t \<Longrightarrow>
   \<exists>sel el. sel \<in> set sels \<and> querySelector doc sel = Some el \<and> t = text_of el \<and>
     MIN_LENGTH \<le> length t"
proof (induction sels)
  case Nil
  then show ?case by simp
next
  case (Cons s sels)
  show ?case
  proof (cases "qualifies doc s")
    case True
    then obtain el where el: "querySelector doc s = Some el" "MIN_LENGTH \<le> length (text_of el)"
      by (auto simp: qualifies_def split: option.splits)
    with Cons.prems have "t = text_of el" by simp
    with el show ?thesis by auto
  next
    case False
    then have "try_selectors doc (s # sels) = try_selectors doc sels"
      by (rule try_selectors_miss)
    with Cons.prems have "try_selectors doc sels = Some t" by (simp del: try_selectors.simps)
    with Cons.IH show ?thesis by auto
  qed
qed

lemma querySelector_first:
  assumes "elements doc = pre @ el # post" "matches sel el" "\<forall>e\<in>set pre. \<not> matches sel e"
  shows "querySelector doc sel = Some el"
proof -
  have "find (matches sel) (pre @ el # post) = Some el"
    using assms(2,3) by (induction pre) simp_all
  with assms(1) show ?thesis by (simp add: querySelector_def)
qed

subsection \<open>The candidate loop\<close>

text \<open>
  The loop skips exactly the elements that are not \<open>eligible\<close>; on the others it keeps the
  first element of greatest length, since only a strictly greater length replaces the
  best one.
\<close>

lemma scan_step_eligible:
  "eligible el \<Longrightarrow>
   scan (el # els) (b, n) =
     (if length (text_of el) > n then scan els (Some el, length (text_of el)) else scan els (b, n))"
  by (simp add: eligible_def hidden_def Let_def)

lemma scan_step_ineligible: "\<not> eligible el \<Longrightarrow> scan (el # els) (b, n) = scan els (b, n)"
  by (auto simp: eligible_def hidden_def)

lemma scan_filter: "scan els (b, n) = scan (filter eligible els) (b, n)"
proof (induction els arbitrary: b n)
  case Nil
  show ?case by simp
next
  case (Cons el els)
  show ?case
  proof (cases "eligible el")
    case True
    then show ?thesis using Cons by (simp add: scan_step_eligible del: scan.simps)
  next
    case False
    then show ?thesis using Cons by (simp add: scan_step_ineligible del: scan.simps)
  qed
qed

lemma scan_best:
  assumes "\<forall>c\<in>set cs. eligible c" "scan cs (b, n) = (b', n')"
  shows "(b' = b \<and> n' = n \<and> (\<forall>c\<in>set cs. length (text_of c) \<le> n)) \<or>
         (\<exists>pre el post. cs = pre @ el # post \<and> b' = Some el \<and> n' = length (text_of el) \<and>
            n < n' \<and> (\<forall>c\<in>set pre. length (text_of c) < n') \<and>
            (\<forall>c\<in>set post. length (text_of c) \<le> n'))"
  using assms
proof (induction cs arbitrary: b n)
  case Nil
  then show ?case by simp
next
  case (Cons c cs)
  have el: "eligible c" and rest: "\<forall>c\<in>set cs. eligible c" using Cons.prems(1) by simp_all
  show ?case
  proof (cases "length (text_of c) > n")
    case True
    with Cons.prems(2) el have s: "scan cs (Some c, length (text_of c)) = (b', n')"
      by (simp only: scan_step_eligible if_True)
    from Cons.IH[OF rest s]
    show ?thesis
    proof
      assume "b' = Some c \<and> n' = length (text_of c) \<and> (\<forall>x\<in>set cs. length (text_of x) \<le> length (text_of c))"
      with True have "c # cs = [] @ c # cs \<and> b' = Some c \<and> n' = length (text_of c) \<and>
            n < n' \<and> (\<forall>x\<in>set []. length (text_of x) < n') \<and>
            (\<forall>x\<in>set cs. length (text_of x) \<le> n')" by simp
      then show ?thesis by blast
    next
      assume "\<exists>pre el post. cs = pre @ el # post \<and> b' = Some el \<and> n' = length (text_of el) \<and>
            length (text_of c) < n' \<and> (\<forall>c\<in>set pre. length (text_of c) < n') \<and>
            (\<forall>c\<in>set post. length (text_of c) \<le> n')"
      then obtain pre el post where p: "cs = pre @ el # post" "b' = Some el"
        "n' = length (text_of el)" "length (text_of c) < n'"
        "\<forall>c\<in>set pre. length (text_of c) < n'" "\<forall>c\<in>set post. length (text_of c) \<le> n'"
        by blast
      with True have "c # cs = (c # pre) @ el # post \<and> b' = Some el \<and> n' = length (text_of el) \<and>
            n < n' \<and> (\<forall>x\<in>set (c # pre). length (text_of x) < n') \<and>
            (\<forall>x\<in>set post. length (text_of x) \<le> n')" by simp
      then show ?thesis by blast
    qed
  next
    case False
    with Cons.prems(2) el have s: "scan cs (b, n) = (b', n')"
      by (simp only: scan_step_eligible if_False)
    from Cons.IH[OF rest s]
    show ?thesis
    proof
      assume "b' = b \<and> n' = n \<and> (\<forall>c\<in>set cs. length (text_of c) \<le> n)"
      with False show ?thesis by simp
    next
      assume "\<exists>pre el post. cs = pre @ el # post \<and> b' = Some el \<and> n' = length (text_of el) \<and>
            n < n' \<and> (\<forall>c\<in>set pre. length (text_of c) < n') \<and>
            (\<forall>c\<in>set post. length (text_of c) \<le> n')"
      then obtain pre el post where p: "cs = pre @ el # post" "b' = Some el"
        "n' = length (text_of el)" "n < n'"
        "\<forall>c\<in>set pre. length (text_of c) < n'" "\<forall>c\<in>set post. length (text_of c) \<le> n'"
        by blast
      with False have "c # cs = (c # pre) @ el # post \<and> b' = Some el \<and> n' = length (text_of el) \<and>
            n < n' \<and> (\<forall>x\<in>set (c # pre). length (text_of x) < n') \<and>
            (\<forall>x\<in>set post. length (text_of x) \<le> n')" by simp
      then show ?thesis by blast
    qed
  qed
qed

lemma scan_candidates:
  "scan (querySelectorAll doc CANDIDATES) (None, 0) = scan (heuristic_candidates doc) (None, 0)"
  unfolding heuristic_candidates_def by (rule scan_filter)

lemma eligible_candidates: "\<forall>c\<in>set (heuristic_candidates doc). eligible c"
  by (simp add: heuristic_candidates_def)

lemma heuristic_tier_None:
  assumes "\<forall>c\<in>set (heuristic_candidates doc). length (text_of c) < MIN_LENGTH"
  shows "heuristic_tier doc = None"
proof -
  obtain b' n' where s: "scan (heuristic_candidates doc) (None, 0) = (b', n')"
    by (cases "scan (heuristic_candidates doc) (None, 0)") blast
  from scan_best[OF eligible_candidates s]
  have "b' = None \<or> (\<exists>el. el \<in> set (heuristic_candidates doc) \<and> n' = length (text_of el))"
    by auto
  with assms have "b' = None \<or> n' < MIN_LENGTH" by auto
  then show ?thesis
    unfolding heuristic_tier_def scan_candidates s by (cases b') auto
qed

lemma heuristic_tier_best:
  assumes "\<exists>c\<in>set (heuristic_candidates doc). MIN_LENGTH \<le> length (text_of c)"
  shows "\<exists>pre el post. heuristic_candidates doc = pre @ el # post \<and>
           heuristic_tier doc = Some (text_of el) \<and>
           (\<forall>c\<in>set pre. length (text_of c) < length (text_of el)) \<and>
           (\<forall>c\<in>set post. length (text_of c) \<le> length (text_of el))"
proof -
  obtain b' n' where s: "scan (heuristic_candidates doc) (None, 0) = (b', n')"
    by (cases "scan (heuristic_candidates doc) (None, 0)") blast
  from assms obtain c where c: "c \<in> set (heuristic_candidates doc)" "MIN_LENGTH \<le> length (text_of c)"
    by blast
  then have "0 < length (text_of c)" by (auto simp: MIN_LENGTH_def)
  with c(1) have "\<not> (\<forall>c\<in>set (heuristic_candidates doc). length (text_of c) \<le> 0)"
    by (metis not_less)
  with scan_best[OF eligible_candidates s]
  obtain pre el post where p: "heuristic_candidates doc = pre @ el # post" "b' = Some el"
    "n' = length (text_of el)" "\<forall>c\<in>set pre. length (text_of c) < n'"
    "\<forall>c\<in>set post. length (text_of c) \<le> n'"
    by blast
  from c(1) p(1) have "c \<in> set pre \<or> c = el \<or> c \<in> set post" by auto
  with p(3,4,5) have "length (text_of c) \<le> n'" by auto
  with c(2) have "MIN_LENGTH \<le> n'" by simp
  then have "heuristic_tier doc = Some (text_of el)"
    unfolding heuristic_tier_def scan_candidates s by (simp add: p(2) text_of_eq)
  with p show ?thesis by blast
qed

lemma heuristic_tier_Some:
  "heuristic_tier doc = Some t \<Longrightarrow> \<exists>x. t = collapseWhitespace x"
  by (auto simp: heuristic_tier_def split: prod.splits option.splits if_splits)

lemma selector_tier_first:
  assumes "i < length KNOWN_SELECTORS"
    and "querySelector doc (KNOWN_SELECTORS ! i) = Some el"
    and "MIN_LENGTH \<le> length (text_of el)"
    and "\<forall>s\<in>set (take i KNOWN_SELECTORS). \<not> qualifies doc s"
  shows "selector_tier doc = Some (text_of el)"
proof -
  have "KNOWN_SELECTORS = take i KNOWN_SELECTORS @ KNOWN_SELECTORS ! i # drop (Suc i) KNOWN_SELECTORS"
    using assms(1) by (rule id_take_nth_drop)
  then have "selector_tier doc =
      try_selectors doc (take i KNOWN_SELECTORS @ KNOWN_SELECTORS ! i # drop (Suc i) KNOWN_SELECTORS)"
    unfolding selector_tier_def by simp
  also have "\<dots> = try_selectors doc (KNOWN_SELECTORS ! i # drop (Suc i) KNOWN_SELECTORS)"
    using assms(4) by (rule try_selectors_skip)
  also have "\<dots> = Some (text_of el)"
    using assms(2,3) by (rule try_selectors_hit)
  finally show ?thesis .
qed

subsection \<open>The extraction\<close>

lemma letters [simp]:
  "\<not> is_whitespace 0x61" "\<not> is_whitespace 0x62" "\<not> is_whitespace 0x63"
  by (simp_all add: is_whitespace_def)

lemmas eval_defs =
  extractJobDescription_def selector_tier_def heuristic_tier_def last_resort_def
  KNOWN_SELECTORS_def CANDIDATES_def BLOCK_TAGS_def SKIP_TAGS_def MIN_LENGTH_def
  querySelector_def querySelectorAll_def elements_def attribute_def ascii_space_def
  text_of_def bodyText_def js_or_def directBlockChildren_def qualifies_def
  rendered_def page_def collapseWhitespace_replicate Let_def

text \<open>
  C1. The match of a selector is the element \<open>querySelector\<close> gives for it. When the
  match of the selector at position \<open>i\<close> of the priority list has at least 200 normalized
  characters and no selector in front of it qualifies, the extraction returns the
  normalized text of that match, whatever the matches of later selectors and the
  heuristic candidates are.
\<close>

theorem selector_priority:
  assumes "i < length KNOWN_SELECTORS"
    and "querySelector doc (KNOWN_SELECTORS ! i) = Some el"
    and "MIN_LENGTH \<le> length (text_of el)"
    and "\<forall>s\<in>set (take i KNOWN_SELECTORS). \<not> qualifies doc s"
  shows "extractJobDescription doc = Inr (text_of el)"
  using selector_tier_first[OF assms] by (simp add: extractJobDescription_def)

theorem selector_priority_witness:
  "2 < length KNOWN_SELECTORS \<and>
   querySelector indeed_page (KNOWN_SELECTORS ! 2) = Some job_div \<and>
   MIN_LENGTH \<le> length (text_of job_div) \<and>
   list_all (\<lambda>s. \<not> qualifies indeed_page s) (take 2 KNOWN_SELECTORS) \<and>
   querySelector indeed_page (KNOWN_SELECTORS ! 18) = Some big_main \<and>
   length (text_of job_div) < length (text_of big_main) \<and>
   big_div \<in> set (heuristic_candidates indeed_page) \<and>
   length (text_of job_div) < length (text_of big_div) \<and>
   extractJobDescription indeed_page = Inr (replicate 300 0x61)"
proof -
  have 1: "2 < length KNOWN_SELECTORS" by (simp add: KNOWN_SELECTORS_def)
  have 2: "querySelector indeed_page (KNOWN_SELECTORS ! 2) = Some job_div"
    by (simp add: eval_defs indeed_page_def job_div_def big_div_def big_main_def)
  have 3: "MIN_LENGTH \<le> length (text_of job_div)"
    by (simp add: eval_defs job_div_def)
  have 4: "\<forall>s\<in>set (take 2 KNOWN_SELECTORS). \<not> qualifies indeed_page s"
    by (simp add: eval_defs indeed_page_def job_div_def big_div_def big_main_def)
  have 5: "querySelector indeed_page (KNOWN_SELECTORS ! 18) = Some big_main"
    by (simp add: eval_defs indeed_page_def job_div_def big_div_def big_main_def)
  have 6: "text_of job_div = replicate 300 0x61" "text_of big_main = replicate 1000 0x63"
    "text_of big_div = replicate 1000 0x62"
    by (simp_all add: eval_defs job_div_def big_main_def big_div_def)
  have 7: "big_div \<in> set (heuristic_candidates indeed_page)"
    by (simp add: heuristic_candidates_def eligible_def hidden_def eval_defs indeed_page_def
        job_div_def big_div_def big_main_def)
  from selector_priority[OF 1 2 3 4] 1 2 3 4 5 6 7 show ?thesis by (simp add: list_all_iff)
qed

lemma selector_tier_None:
  "\<forall>sel\<in>set KNOWN_SELECTORS. \<not> qualifies doc sel \<Longrightarrow> selector_tier doc = None"
  unfolding selector_tier_def by (rule try_selectors_None)

lemma scan_not_hidden:
  assumes "scan els (None, 0) = (Some el, n)"
  shows "\<not> hidden el"
proof -
  have s: "scan (filter eligible els) (None, 0) = (Some el, n)"
    using assms scan_filter[of els None 0] by simp
  have "\<forall>c\<in>set (filter eligible els). eligible c" by simp
  from scan_best[OF this s] obtain pre post where "filter eligible els = pre @ el # post"
    by auto
  then have "el \<in> set (filter eligible els)" by (simp only: in_set_conv_decomp) blast
  then have "eligible el" by simp
  then show ?thesis by (simp add: eligible_def)
qed

lemma take_normalized:
  "TAB \<notin> set (take n (collapseWhitespace x))"
  "\<not> sublist [LF, LF, LF] (take n (collapseWhitespace x))"
  "\<not> starts_with_whitespace (take n (collapseWhitespace x))"
proof -
  show "TAB \<notin> set (take n (collapseWhitespace x))"
    using tab_collapseWhitespace[of x] by (auto dest: in_set_takeD)
  show "\<not> sublist [LF, LF, LF] (take n (collapseWhitespace x))"
    using newlines_collapseWhitespace[of x] sublist_take sublist_order.order_trans by blast
  show "\<not> starts_with_whitespace (take n (collapseWhitespace x))"
    using ends_collapseWhitespace(1)[of x]
    by (cases n; cases "collapseWhitespace x") (simp_all add: starts_with_whitespace_def)
qed

lemma heuristic_tier_length:
  assumes "heuristic_tier doc = Some t"
  shows "MIN_LENGTH \<le> length t"
proof -
  obtain b' n' where s: "scan (heuristic_candidates doc) (None, 0) = (b', n')"
    by (cases "scan (heuristic_candidates doc) (None, 0)") blast
  from assms obtain el where el: "b' = Some el" "MIN_LENGTH \<le> n'" "t = text_of el"
    unfolding heuristic_tier_def scan_candidates s
    by (cases b') (auto simp: text_of_eq split: if_splits)
  from scan_best[OF eligible_candidates s] el(1) have "n' = length (text_of el)" by auto
  with el show ?thesis by simp
qed

lemma extract_with_body:
  assumes "body doc = Some b"
  shows "\<exists>s. extractJobDescription doc = Inr s \<and> (s = [] \<longrightarrow> bodyText b = [])"
proof (cases "selector_tier doc")
  case (Some t)
  then have "MIN_LENGTH \<le> length t"
    unfolding selector_tier_def using try_selectors_Some by blast
  then have "t \<noteq> []" by (auto simp: MIN_LENGTH_def)
  with Some show ?thesis by (simp add: extractJobDescription_def)
next
  case None
  note sel = this
  show ?thesis
  proof (cases "heuristic_tier doc")
    case (Some t)
    then have "MIN_LENGTH \<le> length t" by (rule heuristic_tier_length)
    then have "t \<noteq> []" by (auto simp: MIN_LENGTH_def)
    with Some sel show ?thesis by (simp add: extractJobDescription_def)
  next
    case None
    with sel assms show ?thesis
      by (simp add: extractJobDescription_def last_resort_def bodyText_def)
  qed
qed

lemmas page_defs =
  indeed_page_def job_div_def big_div_def big_main_def
  careers_page_def short_div_def tie_a_def tie_b_def hidden_div_def para_def wrapper_def
  stub_page_def stub_div_def svg_document_def long_page_def
  hidden_page_def hidden_job_div_def lever_page_def intro_section_def posting_section_def

text \<open>
  C2. When no selector of the priority list qualifies and some candidate of the heuristic
  tier has at least 200 normalized characters, the extraction returns the normalized
  text of a candidate that is at least as long as every candidate and strictly longer
  than every candidate in front of it in traversal order: the longest one, and on a tie
  the first.
\<close>

theorem heuristic_longest_first:
  assumes "\<forall>sel\<in>set KNOWN_SELECTORS. \<not> qualifies doc sel"
    and "\<exists>c\<in>set (heuristic_candidates doc). MIN_LENGTH \<le> length (text_of c)"
  shows "\<exists>pre el post. heuristic_candidates doc = pre @ el # post \<and>
           extractJobDescription doc = Inr (text_of el) \<and>
           (\<forall>c\<in>set pre. length (text_of c) < length (text_of el)) \<and>
           (\<forall>c\<in>set post. length (text_of c) \<le> length (text_of el))"
proof -
  from heuristic_tier_best[OF assms(2)]
  obtain pre el post where p: "heuristic_candidates doc = pre @ el # post"
    "heuristic_tier doc = Some (text_of el)"
    "\<forall>c\<in>set pre. length (text_of c) < length (text_of el)"
    "\<forall>c\<in>set post. length (text_of c) \<le> length (text_of el)"
    by blast
  have "extractJobDescription doc = Inr (text_of el)"
    using selector_tier_None[OF assms(1)] p(2) by (simp add: extractJobDescription_def)
  with p show ?thesis by blast
qed

theorem heuristic_longest_first_witness:
  "list_all (\<lambda>sel. \<not> qualifies careers_page sel) KNOWN_SELECTORS \<and>
   heuristic_candidates careers_page = [short_div, tie_a, tie_b] \<and>
   MIN_LENGTH \<le> length (text_of tie_a) \<and>
   length (text_of short_div) < length (text_of tie_a) \<and>
   length (text_of tie_b) = length (text_of tie_a) \<and>
   (\<exists>pre el post. heuristic_candidates careers_page = pre @ el # post \<and>
      extractJobDescription careers_page = Inr (text_of el) \<and>
      list_all (\<lambda>c. length (text_of c) < length (text_of el)) pre \<and>
      list_all (\<lambda>c. length (text_of c) \<le> length (text_of el)) post) \<and>
   extractJobDescription careers_page = Inr (text_of tie_a)"
proof -
  have 1: "\<forall>sel\<in>set KNOWN_SELECTORS. \<not> qualifies careers_page sel"
    by (simp add: eval_defs page_defs)
  have 2: "heuristic_candidates careers_page = [short_div, tie_a, tie_b]"
    by (simp add: heuristic_candidates_def eligible_def hidden_def eval_defs page_defs)
  have 3: "text_of tie_a = replicate 300 0x61" "text_of tie_b = replicate 300 0x62"
    "text_of short_div = replicate 250 0x63"
    by (simp_all add: eval_defs page_defs)
  have 4: "\<exists>c\<in>set (heuristic_candidates careers_page). MIN_LENGTH \<le> length (text_of c)"
    using 2 3 by (simp add: MIN_LENGTH_def)
  have 5: "extractJobDescription careers_page = Inr (text_of tie_a)"
    by (simp add: eval_defs page_defs)
  from heuristic_longest_first[OF 1 4] 1 2 3 5 show ?thesis
    by (simp add: list_all_iff MIN_LENGTH_def)
qed

text \<open>
  The last-resort path on a document with a body. When no selector of the priority list
  qualifies and every candidate of the heuristic tier has fewer than 200 normalized
  characters, the extraction returns the normalized text of the body cut to its first
  8000 code units: the result is never longer than 8000, and it is the normalized body
  text itself when that has at most 8000 code units.
\<close>

lemma last_resort_with_body:
  assumes "\<forall>sel\<in>set KNOWN_SELECTORS. \<not> qualifies doc sel"
    and "\<forall>c\<in>set (heuristic_candidates doc). length (text_of c) < MIN_LENGTH"
    and "body doc = Some b"
  shows "\<exists>s. extractJobDescription doc = Inr s \<and> s = take 8000 (bodyText b) \<and>
           length s \<le> 8000 \<and> (length (bodyText b) \<le> 8000 \<longrightarrow> s = bodyText b)"
proof -
  have "extractJobDescription doc = Inr (take 8000 (bodyText b))"
    using selector_tier_None[OF assms(1)] heuristic_tier_None[OF assms(2)] assms(3)
    by (simp add: extractJobDescription_def last_resort_def bodyText_def)
  then show ?thesis by simp
qed

lemma last_resort_with_body_stub_page:
  "list_all (\<lambda>sel. \<not> qualifies stub_page sel) KNOWN_SELECTORS \<and>
   list_all (\<lambda>c. length (text_of c) < MIN_LENGTH) (heuristic_candidates stub_page) \<and>
   heuristic_candidates stub_page \<noteq> [] \<and>
   body stub_page = Some (rendered ''body'' ''BODY'' [] (replicate 50 0x61) [stub_div]) \<and>
   bodyText (rendered ''body'' ''BODY'' [] (replicate 50 0x61) [stub_div]) = replicate 50 0x61 \<and>
   extractJobDescription stub_page = Inr (replicate 50 0x61)"
proof -
  have 1: "\<forall>sel\<in>set KNOWN_SELECTORS. \<not> qualifies stub_page sel"
    by (simp add: eval_defs page_defs)
  have 2: "\<forall>c\<in>set (heuristic_candidates stub_page). length (text_of c) < MIN_LENGTH"
    by (simp add: heuristic_candidates_def eligible_def hidden_def eval_defs page_defs)
  have 3: "heuristic_candidates stub_page \<noteq> []"
    by (simp add: heuristic_candidates_def eligible_def hidden_def eval_defs page_defs)
  have 4: "body stub_page = Some (rendered ''body'' ''BODY'' [] (replicate 50 0x61) [stub_div])"
    by (simp add: stub_page_def page_def)
  have 5: "bodyText (rendered ''body'' ''BODY'' [] (replicate 50 0x61) [stub_div]) = replicate 50 0x61"
    by (simp add: bodyText_def eval_defs)
  from last_resort_with_body[OF 1 2 4] 1 2 3 4 5 show ?thesis
    by (simp add: list_all_iff)
qed

text \<open>
  C3. For every document in which no selector of the priority list qualifies and no
  candidate of the heuristic tier has 200 normalized characters, the extraction should
  return the normalized body text cut to 8000 code units. On a document with a body it
  does (\<open>last_resort_with_body\<close>). On \<open>svg_document\<close>, which meets both conditions and
  has no body, it returns nothing: \<open>document.body.innerText\<close> throws a \<open>TypeError\<close>.
\<close>

theorem last_resort_throws_without_body:
  "list_all (\<lambda>sel. \<not> qualifies svg_document sel) KNOWN_SELECTORS \<and>
   list_all (\<lambda>c. length (text_of c) < MIN_LENGTH) (heuristic_candidates svg_document) \<and>
   body svg_document = None \<and>
   last_resort svg_document = Inl TypeError \<and>
   extractJobDescription svg_document = Inl TypeError"
proof -
  have "list_all (\<lambda>sel. \<not> qualifies svg_document sel) KNOWN_SELECTORS"
    by (simp add: eval_defs page_defs)
  moreover have "heuristic_candidates svg_document = []"
    by (simp add: heuristic_candidates_def eval_defs page_defs)
  moreover have "body svg_document = None" by (simp add: svg_document_def)
  moreover have "last_resort svg_document = Inl TypeError"
    by (simp add: last_resort_def svg_document_def)
  moreover have "extractJobDescription svg_document = Inl TypeError"
    by (simp add: eval_defs page_defs)
  ultimately show ?thesis by simp
qed

text \<open>
  C4. On every document with a body the extraction returns a string, empty only when the
  normalized body text is empty (\<open>extract_with_body\<close>). On a document without a body
  it does not return: \<open>document.body\<close> is \<open>null\<close> there, and when the first two tiers
  fall through, \<open>document.body.innerText\<close> throws a \<open>TypeError\<close>. An SVG document shown
  in the tab is such a document.
\<close>

theorem extract_throws_without_body:
  "extractJobDescription svg_document = Inl TypeError"
  by (simp add: eval_defs page_defs)

text \<open>
  C6, as stated, fails in the last-resort path: \<open>slice(0, 8000)\<close> comes after
  \<open>collapseWhitespace\<close>, and a cut behind a space leaves that space at the end. The body
  text of \<open>long_page\<close> is 7999 letters, a space and a letter.
\<close>

theorem last_resort_trailing_space:
  "extractJobDescription long_page = Inr (replicate 7999 0x61 @ [SP]) \<and>
   ends_with_whitespace (replicate 7999 0x61 @ [SP])"
proof -
  have "collapseWhitespace (replicate 7999 0x61 @ [SP, 0x62]) = replicate 7999 0x61 @ [SP, 0x62]"
    by (rule collapseWhitespace_replicate_append) (simp_all add: sublist_Cons_right is_whitespace_def)
  then have "extractJobDescription long_page = Inr (replicate 7999 0x61 @ [SP])"
    by (simp add: eval_defs page_defs)
  then show ?thesis by (simp add: ends_with_whitespace_def is_whitespace_def)
qed

text \<open>
  C6, amended. Whichever tier produces it, the returned string contains no tab and no
  three consecutive newlines and does not start with whitespace. It does not end with
  whitespace either when it comes from the selector tier or the heuristic tier, or
  from the last-resort path with a normalized body text of at most 8000 code units.
\<close>

theorem extract_normalized:
  assumes "extractJobDescription doc = Inr s"
  shows "TAB \<notin> set s \<and> \<not> sublist [LF, LF, LF] s \<and> \<not> starts_with_whitespace s \<and>
         (\<not> last_resort_cuts doc \<longrightarrow> \<not> ends_with_whitespace s)"
proof -
  consider (sel) t where "selector_tier doc = Some t" "s = t"
    | (heur) t where "selector_tier doc = None" "heuristic_tier doc = Some t" "s = t"
    | (last) b where "selector_tier doc = None" "heuristic_tier doc = None" "body doc = Some b"
        "s = take 8000 (bodyText b)"
    using assms
    by (auto simp: extractJobDescription_def last_resort_def bodyText_def split: option.splits)
  then show ?thesis
  proof cases
    case sel
    then obtain x where "s = collapseWhitespace x"
      unfolding selector_tier_def using try_selectors_Some text_of_def by blast
    then show ?thesis using collapseWhitespace_facts by simp
  next
    case heur
    then obtain x where "s = collapseWhitespace x" using heuristic_tier_Some by blast
    then show ?thesis using collapseWhitespace_facts by simp
  next
    case last
    have "\<not> ends_with_whitespace s" if "\<not> last_resort_cuts doc"
    proof -
      from that last have "length (bodyText b) \<le> 8000"
        by (simp add: last_resort_cuts_def bodyText_def)
      with last(4) have "s = bodyText b" by simp
      then show ?thesis using ends_collapseWhitespace(2) by (simp add: bodyText_def)
    qed
    then show ?thesis using take_normalized last(4) by (simp add: bodyText_def)
  qed
qed

theorem extract_normalized_witness:
  "extractJobDescription stub_page = Inr (replicate 50 0x61) \<and>
   \<not> last_resort_cuts stub_page \<and>
   TAB \<notin> set (replicate 50 (0x61 :: code_unit)) \<and>
   \<not> sublist [LF, LF, LF] (replicate 50 0x61) \<and>
   \<not> starts_with_whitespace (replicate 50 0x61) \<and>
   \<not> ends_with_whitespace (replicate 50 0x61)"
proof -
  have 1: "extractJobDescription stub_page = Inr (replicate 50 0x61)"
    by (simp add: eval_defs page_defs)
  have 2: "\<not> last_resort_cuts stub_page"
    by (simp add: last_resort_cuts_def eval_defs page_defs)
  from extract_normalized[OF 1] 1 2 show ?thesis by simp
qed

text \<open>
  C9. The selector tier does not look at the computed style: when the match of the first
  qualifying selector is hidden (\<open>display: none\<close> or \<open>visibility: hidden\<close>), the extraction
  still returns its normalized text. The candidate loop of the heuristic tier does look:
  the same element is never its best element.
\<close>

theorem selector_tier_ignores_visibility:
  assumes "i < length KNOWN_SELECTORS"
    and "querySelector doc (KNOWN_SELECTORS ! i) = Some el"
    and "MIN_LENGTH \<le> length (text_of el)"
    and "\<forall>s\<in>set (take i KNOWN_SELECTORS). \<not> qualifies doc s"
    and "hidden el"
  shows "extractJobDescription doc = Inr (text_of el) \<and>
         fst (scan (querySelectorAll doc CANDIDATES) (None, 0)) \<noteq> Some el"
proof -
  have "selector_tier doc = Some (text_of el)"
    using assms(1-4) by (rule selector_tier_first)
  then have "extractJobDescription doc = Inr (text_of el)"
    by (simp add: extractJobDescription_def)
  moreover have "fst (scan (querySelectorAll doc CANDIDATES) (None, 0)) \<noteq> Some el"
  proof
    assume a: "fst (scan (querySelectorAll doc CANDIDATES) (None, 0)) = Some el"
    obtain n where "scan (querySelectorAll doc CANDIDATES) (None, 0) = (Some el, n)"
      using a by (cases "scan (querySelectorAll doc CANDIDATES) (None, 0)") simp
    then have "\<not> hidden el" by (rule scan_not_hidden)
    with assms(5) show False by simp
  qed
  ultimately show ?thesis by simp
qed

theorem selector_tier_ignores_visibility_witness:
  "2 < length KNOWN_SELECTORS \<and>
   querySelector hidden_page (KNOWN_SELECTORS ! 2) = Some hidden_job_div \<and>
   MIN_LENGTH \<le> length (text_of hidden_job_div) \<and>
   list_all (\<lambda>s. \<not> qualifies hidden_page s) (take 2 KNOWN_SELECTORS) \<and>
   hidden hidden_job_div \<and> display hidden_job_div = ''none'' \<and>
   hidden_job_div \<in> set (querySelectorAll hidden_page CANDIDATES) \<and>
   extractJobDescription hidden_page = Inr (replicate 300 0x61) \<and>
   fst (scan (querySelectorAll hidden_page CANDIDATES) (None, 0)) = Some big_div"
proof -
  have 1: "2 < length KNOWN_SELECTORS" by (simp add: KNOWN_SELECTORS_def)
  have 2: "querySelector hidden_page (KNOWN_SELECTORS ! 2) = Some hidden_job_div"
    by (simp add: eval_defs page_defs)
  have 3: "text_of hidden_job_div = replicate 300 0x61"
    by (simp add: eval_defs page_defs)
  then have 8: "MIN_LENGTH \<le> length (text_of hidden_job_div)" by (simp add: MIN_LENGTH_def)
  have 4: "\<forall>s\<in>set (take 2 KNOWN_SELECTORS). \<not> qualifies hidden_page s"
    by (simp add: eval_defs page_defs)
  have 5: "hidden hidden_job_div" "display hidden_job_div = ''none''"
    by (simp_all add: hidden_def hidden_job_div_def)
  have 6: "hidden_job_div \<in> set (querySelectorAll hidden_page CANDIDATES)"
    by (simp add: eval_defs page_defs)
  have 7: "fst (scan (querySelectorAll hidden_page CANDIDATES) (None, 0)) = Some big_div"
    by (simp add: eval_defs page_defs)
  from selector_tier_ignores_visibility[OF 1 2 8 4 5(1)] 1 2 3 8 4 5 6 7 show ?thesis
    by (simp add: list_all_iff)
qed

text \<open>
  C10. Of the elements that match a selector, only the first in document order is
  examined. When that element has fewer than 200 normalized characters, the loop goes on
  with the next selector, whatever the elements behind it are: the selector
  contributes nothing, even if a later element that matches it has enough text.
\<close>

theorem selector_first_match_only:
  assumes "i < length KNOWN_SELECTORS"
    and "elements doc = pre @ el # post"
    and "matches (KNOWN_SELECTORS ! i) el"
    and "\<forall>e\<in>set pre. \<not> matches (KNOWN_SELECTORS ! i) e"
    and "length (text_of el) < MIN_LENGTH"
  shows "try_selectors doc (drop i KNOWN_SELECTORS) = try_selectors doc (drop (Suc i) KNOWN_SELECTORS)"
proof -
  have "querySelector doc (KNOWN_SELECTORS ! i) = Some el"
    using assms(2,3,4) by (rule querySelector_first)
  with assms(5) have "\<not> qualifies doc (KNOWN_SELECTORS ! i)"
    by (simp add: qualifies_def)
  then have "try_selectors doc (KNOWN_SELECTORS ! i # drop (Suc i) KNOWN_SELECTORS)
      = try_selectors doc (drop (Suc i) KNOWN_SELECTORS)"
    by (rule try_selectors_miss)
  then show ?thesis using assms(1) by (simp only: Cons_nth_drop_Suc)
qed

theorem selector_first_match_only_witness:
  "7 < length KNOWN_SELECTORS \<and>
   elements lever_page =
     [rendered ''html'' ''HTML'' [] (replicate 50 0x61 @ LF # replicate 300 0x62)
        [rendered ''body'' ''BODY'' [] (replicate 50 0x61 @ LF # replicate 300 0x62)
           [intro_section, posting_section]],
      rendered ''body'' ''BODY'' [] (replicate 50 0x61 @ LF # replicate 300 0x62)
        [intro_section, posting_section]]
     @ intro_section # [posting_section] \<and>
   matches (KNOWN_SELECTORS ! 7) intro_section \<and>
   length (text_of intro_section) < MIN_LENGTH \<and>
   matches (KNOWN_SELECTORS ! 7) posting_section \<and>
   MIN_LENGTH \<le> length (text_of posting_section) \<and>
   try_selectors lever_page (drop 7 KNOWN_SELECTORS) = try_selectors lever_page (drop 8 KNOWN_SELECTORS)"
proof -
  let ?b = "rendered ''body'' ''BODY'' [] (replicate 50 0x61 @ LF # replicate 300 0x62)
        [intro_section, posting_section]"
  let ?h = "rendered ''html'' ''HTML'' [] (replicate 50 0x61 @ LF # replicate 300 0x62) [?b]"
  have 1: "7 < length KNOWN_SELECTORS" by (simp add: KNOWN_SELECTORS_def)
  have 2: "elements lever_page = [?h, ?b] @ intro_section # [posting_section]"
    by (simp add: eval_defs page_defs)
  have 3: "matches (KNOWN_SELECTORS ! 7) intro_section"
    by (simp add: eval_defs page_defs)
  have 4: "\<forall>e\<in>set [?h, ?b]. \<not> matches (KNOWN_SELECTORS ! 7) e"
    by (simp add: eval_defs)
  have 5: "length (text_of intro_section) < MIN_LENGTH"
    by (simp add: eval_defs page_defs)
  have 6: "matches (KNOWN_SELECTORS ! 7) posting_section"
    "MIN_LENGTH \<le> length (text_of posting_section)"
    by (simp_all add: eval_defs page_defs)
  from selector_first_match_only[OF 1 2 3 4 5] 1 2 3 5 6 show ?thesis
    by (simp del: try_selectors.simps)
qed

end
